theory Spec2Isabelle
  imports Main "HOL-Library.Word"
begin

unbundle bit_operations_syntax

section \<open>Data model\<close>

text \<open>
  The function \<open>prvhash42\<close> of \<open>prvhash42.h\<close> works on bytes (\<open>uint8_t\<close>), on the
  32-bit words of the hash buffer (\<open>uint32_t\<close>) and on the two 64-bit accumulators
  \<open>Seed\<close> and \<open>lcg\<close> (\<open>uint64_t\<close>); all three are fixed-width words whose arithmetic
  wraps around. The lengths \<open>MsgLen\<close> and \<open>HashLen\<close>, the loop index \<open>k\<close> and the cursor
  \<open>hpos\<close> are C \<open>int\<close>s of 32 bits. They are integers here, and where a result can
  leave the range of an \<open>int\<close>, in the lengths \<open>mlext\<close> and \<open>c\<close> of lines 101 and
  102, the wrap-around is written out (\<open>wrap_int\<close>). The doubling \<open>HashLen << 1\<close> is
  taken exactly: it fits an \<open>int\<close> for every \<open>HashLen\<close> below \<open>2 ^ 30\<close>, that is
  for every buffer whose size an \<open>int\<close> can hold. The steps \<open>k += 4\<close> and
  \<open>hpos += 4\<close> do not leave the range when \<open>c\<close> did not (lemma
  \<open>loop_trace_no_overflow\<close>). The message and the hash buffer are byte lists, a null
  \<open>InitVec\<close> is \<open>None\<close>.
\<close>

type_synonym u8 = "8 word"
type_synonym u32 = "32 word"
type_synonym u64 = "64 word"

section \<open>The endianness helpers of prvhash42ec.h\<close>

text \<open>
  Modelled from the spec: the header \<open>prvhash42ec.h\<close>, which declares
  \<open>prvhash42_u32ec\<close>, \<open>prvhash42_u64ec\<close> and \<open>prvhash42_ec\<close>, is not among the sources.
  The spec describes them: the two readers return the 4 or 8 bytes at a (possibly
  misaligned) address as an unsigned integer in canonical, little-endian, order.
\<close>

definition prvhash42_u32ec :: "u8 list \<Rightarrow> nat \<Rightarrow> u32" where
  "prvhash42_u32ec p i =
     ucast (p ! i) OR push_bit 8 (ucast (p ! (i + 1))) OR
     push_bit 16 (ucast (p ! (i + 2))) OR push_bit 24 (ucast (p ! (i + 3)))"

definition prvhash42_u64ec :: "u8 list \<Rightarrow> nat \<Rightarrow> u64" where
  "prvhash42_u64ec p i =
     ucast (p ! i) OR push_bit 8 (ucast (p ! (i + 1))) OR
     push_bit 16 (ucast (p ! (i + 2))) OR push_bit 24 (ucast (p ! (i + 3))) OR
     push_bit 32 (ucast (p ! (i + 4))) OR push_bit 40 (ucast (p ! (i + 5))) OR
     push_bit 48 (ucast (p ! (i + 6))) OR push_bit 56 (ucast (p ! (i + 7)))"

text \<open>
  Modelled from the spec: \<open>prvhash42_ec(Hash, n)\<close> reorders, in place, every 4-byte word
  of the first \<open>n\<close> bytes between host order and canonical order: nothing happens on a
  little-endian host, each word's four bytes are reversed on a big-endian host. The
  host's byte order is the parameter \<open>be\<close> (\<open>True\<close> on a big-endian host).
\<close>

fun swap_words :: "u8 list \<Rightarrow> u8 list" where
  "swap_words (b0 # b1 # b2 # b3 # bs) = b3 # b2 # b1 # b0 # swap_words bs"
| "swap_words bs = bs"

definition prvhash42_ec :: "bool \<Rightarrow> u8 list \<Rightarrow> int \<Rightarrow> u8 list" where
  "prvhash42_ec be H n =
     (if be then swap_words (take (nat n) H) @ drop (nat n) H else H)"

section \<open>Access to the hash buffer\<close>

text \<open>
  The source reads and writes the hash buffer through \<open>uint32_t\<close> pointers
  (\<open>*(uint32_t*) &Hash[hpos]\<close>): four bytes in the byte order of the host.
\<close>

definition load_u32 :: "bool \<Rightarrow> u8 list \<Rightarrow> nat \<Rightarrow> u32" where
  "load_u32 be H i =
     (if be
      then ucast (H ! (i + 3)) OR push_bit 8 (ucast (H ! (i + 2))) OR
           push_bit 16 (ucast (H ! (i + 1))) OR push_bit 24 (ucast (H ! i))
      else ucast (H ! i) OR push_bit 8 (ucast (H ! (i + 1))) OR
           push_bit 16 (ucast (H ! (i + 2))) OR push_bit 24 (ucast (H ! (i + 3))))"

definition store_u32 :: "bool \<Rightarrow> u8 list \<Rightarrow> nat \<Rightarrow> u32 \<Rightarrow> u8 list" where
  "store_u32 be H i w =
     (if be
      then H[i := ucast (drop_bit 24 w), i + 1 := ucast (drop_bit 16 w),
             i + 2 := ucast (drop_bit 8 w), i + 3 := ucast w]
      else H[i := ucast w, i + 1 := ucast (drop_bit 8 w),
             i + 2 := ucast (drop_bit 16 w), i + 3 := ucast (drop_bit 24 w)])"

text \<open>\<open>memset(Hash, 0, n)\<close>: the first \<open>n\<close> bytes become zero.\<close>

definition memset0 :: "u8 list \<Rightarrow> int \<Rightarrow> u8 list" where
  "memset0 H n = replicate (min (nat n) (length H)) 0 @ drop (nat n) H"

section \<open>The message chunker\<close>

text \<open>C's \<open>%\<close> truncates towards zero; the remainder has the sign of the dividend.\<close>

definition c_rem :: "int \<Rightarrow> int \<Rightarrow> int" where
  "c_rem a b = sgn a * (\<bar>a\<bar> mod \<bar>b\<bar>)"

text \<open>\<open>const int hlm = ( HashLen == 4 ? HashLen : HashLen << 1 );\<close>\<close>

definition hlm :: "int \<Rightarrow> int" where
  "hlm HashLen = (if HashLen = 4 then HashLen else push_bit 1 HashLen)"

text \<open>
  \<open>const uint8_t lb = (uint8_t) ( MsgLen > 0 ? ~Msg[ MsgLen - 1 ] : 0xFF );\<close>
  The byte is promoted to a 32-bit \<open>int\<close> before \<open>~\<close>, and the cast keeps the low byte.
\<close>

definition lb :: "u8 list \<Rightarrow> int \<Rightarrow> u8" where
  "lb Msg MsgLen =
     (if MsgLen > 0 then ucast (NOT (ucast (Msg ! nat (MsgLen - 1)) :: u32)) else 0xFF)"

text \<open>
  The value a 32-bit \<open>int\<close> holds after an operation whose exact result is \<open>x\<close>.
  Signed overflow is undefined in C; the model gives it the two's-complement result
  that the compilers in use produce.
\<close>

definition wrap_int :: "int \<Rightarrow> int" where
  "wrap_int x = (x + 2147483648) mod 4294967296 - 2147483648"

text \<open>\<open>const int mlext = MsgLen + (( 4 - ( MsgLen & 3 )) & 3 );\<close>\<close>

definition mlext :: "int \<Rightarrow> int" where
  "mlext MsgLen = wrap_int (MsgLen + ((4 - (MsgLen AND 3)) AND 3))"

text \<open>
  \<open>const int c = mlext + HashLen + ( hlm - mlext % hlm );\<close>
  The two additions and the subtraction each give an \<open>int\<close>.
\<close>

definition c :: "int \<Rightarrow> int \<Rightarrow> int" where
  "c MsgLen HashLen =
     wrap_int (wrap_int (mlext MsgLen + HashLen) +
               wrap_int (hlm HashLen - c_rem (mlext MsgLen) (hlm HashLen)))"

text \<open>
  The message word of the iteration with index \<open>k\<close> (lines 110 to 120): a word read
  from the message while four bytes are left, otherwise one put together from the
  remaining bytes and the filler byte.
\<close>

definition msgw :: "u8 list \<Rightarrow> int \<Rightarrow> u8 \<Rightarrow> int \<Rightarrow> u64" where
  "msgw Msg MsgLen lbv kv =
     (if kv < MsgLen - 3 then ucast (prvhash42_u32ec Msg (nat kv))
      else ucast
        ((ucast (if kv < MsgLen then Msg ! nat kv else lbv) :: u32) OR
         push_bit 8 (ucast (if kv < MsgLen - 1 then Msg ! nat (kv + 1) else lbv) :: u32) OR
         push_bit 16 (ucast (if kv < MsgLen - 2 then Msg ! nat (kv + 2) else lbv) :: u32) OR
         push_bit 24 (ucast lbv :: u32)))"

section \<open>The mixing loop\<close>

record loop_state =
  Seed :: u64
  lcg :: u64
  Hash :: "u8 list"
  hpos :: int
  k :: int

text \<open>
  Lines 122 to 129: the update of \<open>Seed\<close>, \<open>lcg\<close> and of the hash word at \<open>hpos\<close>,
  one assignment after the other as in the source.
\<close>

definition mix :: "bool \<Rightarrow> u64 \<Rightarrow> loop_state \<Rightarrow> loop_state" where
  "mix be mw st =
     (let Seed1 = Seed st * lcg st;
          Seed2 = NOT Seed1;
          hc = load_u32 be (Hash st) (nat (hpos st));
          hl = drop_bit 32 (lcg st) XOR mw;
          lcg1 = lcg st + Seed2;
          ph = ucast hc XOR drop_bit 32 Seed2;
          Seed3 = Seed2 XOR (ph XOR hl)
      in st\<lparr>Seed := Seed3, lcg := lcg1,
            Hash := store_u32 be (Hash st) (nat (hpos st)) (ucast ph)\<rparr>)"

text \<open>Lines 131 to 136: the cursor moves on by one word and wraps at \<open>hlm\<close>.\<close>

definition advance :: "int \<Rightarrow> loop_state \<Rightarrow> loop_state" where
  "advance hlmv st =
     (let hpos1 = hpos st + 4
      in st\<lparr>hpos := (if hpos1 = hlmv then 0 else hpos1)\<rparr>)"

text \<open>One pass through the body of the \<open>for\<close> loop, with its \<open>k += 4\<close>.\<close>

definition loop_body :: "bool \<Rightarrow> u8 list \<Rightarrow> int \<Rightarrow> u8 \<Rightarrow> int \<Rightarrow> loop_state \<Rightarrow> loop_state" where
  "loop_body be Msg MsgLen lbv hlmv st =
     (let st1 = mix be (msgw Msg MsgLen lbv (k st)) st;
          st2 = advance hlmv st1
      in st2\<lparr>k := k st2 + 4\<rparr>)"

text \<open>\<open>for( k = 0; k < c; k += 4 )\<close>, from the state \<open>st\<close> on.\<close>

function main_loop ::
  "bool \<Rightarrow> u8 list \<Rightarrow> int \<Rightarrow> u8 \<Rightarrow> int \<Rightarrow> int \<Rightarrow> loop_state \<Rightarrow> loop_state" where
  "main_loop be Msg MsgLen lbv hlmv cv st =
     (if k st < cv then main_loop be Msg MsgLen lbv hlmv cv (loop_body be Msg MsgLen lbv hlmv st)
      else st)"
  by pat_completeness auto
termination
  by (relation "measure (\<lambda>(be, Msg, MsgLen, lbv, hlmv, cv, st). nat (cv - k st))")
    (auto simp: loop_body_def advance_def mix_def Let_def)

text \<open>
  The same loop, keeping what the source only passes through: the states in which
  the passes through the body begin, in order.
\<close>

function loop_trace ::
  "bool \<Rightarrow> u8 list \<Rightarrow> int \<Rightarrow> u8 \<Rightarrow> int \<Rightarrow> int \<Rightarrow> loop_state \<Rightarrow> loop_state list" where
  "loop_trace be Msg MsgLen lbv hlmv cv st =
     (if k st < cv
      then st # loop_trace be Msg MsgLen lbv hlmv cv (loop_body be Msg MsgLen lbv hlmv st)
      else [])"
  by pat_completeness auto
termination
  by (relation "measure (\<lambda>(be, Msg, MsgLen, lbv, hlmv, cv, st). nat (cv - k st))")
    (auto simp: loop_body_def advance_def mix_def Let_def)

section \<open>Start and end of the function\<close>

text \<open>Lines 85 to 98 and line 103: the state in which the loop is entered.\<close>

definition init_state :: "bool \<Rightarrow> u8 list \<Rightarrow> int \<Rightarrow> u64 \<Rightarrow> u8 list option \<Rightarrow> loop_state" where
  "init_state be Hash0 HashLen SeedXOR InitVec =
     (case InitVec of
        None \<Rightarrow>
          \<lparr>Seed = 17412655673657598932 XOR SeedXOR, lcg = 15252113002925621231,
           Hash = memset0 Hash0 (hlm HashLen), hpos = 0, k = 0\<rparr>
      | Some iv \<Rightarrow>
          \<lparr>Seed = prvhash42_u64ec iv 8, lcg = prvhash42_u64ec iv 0,
           Hash = prvhash42_ec be Hash0 (hlm HashLen), hpos = 0, k = 0\<rparr>)"

text \<open>Lines 141 to 144: the loop that folds the scratch half into the output half.\<close>

function fold_loop :: "bool \<Rightarrow> int \<Rightarrow> int \<Rightarrow> u8 list \<Rightarrow> u8 list" where
  "fold_loop be HashLen kv H =
     (if kv < HashLen
      then fold_loop be HashLen (kv + 4)
             (store_u32 be H (nat kv)
                (load_u32 be H (nat kv) XOR load_u32 be H (nat (HashLen + kv))))
      else H)"
  by pat_completeness auto
termination
  by (relation "measure (\<lambda>(be, HashLen, kv, H). nat (HashLen - kv))") auto

text \<open>Lines 139 to 147.\<close>

definition finalize :: "bool \<Rightarrow> int \<Rightarrow> u8 list \<Rightarrow> u8 list" where
  "finalize be HashLen H =
     prvhash42_ec be (if hlm HashLen > 4 then fold_loop be HashLen 0 H else H) HashLen"

text \<open>The whole function; the result is the hash buffer as the call leaves it.\<close>

definition prvhash42 ::
  "bool \<Rightarrow> u8 list \<Rightarrow> int \<Rightarrow> u8 list \<Rightarrow> int \<Rightarrow> u64 \<Rightarrow> u8 list option \<Rightarrow> u8 list" where
  "prvhash42 be Msg MsgLen Hash0 HashLen SeedXOR InitVec =
     finalize be HashLen
       (Hash (main_loop be Msg MsgLen (lb Msg MsgLen) (hlm HashLen) (c MsgLen HashLen)
                (init_state be Hash0 HashLen SeedXOR InitVec)))"

text \<open>
  The three loops are unfolded one pass at a time, where a proof asks for it.
\<close>

declare main_loop.simps [simp del] loop_trace.simps [simp del] fold_loop.simps [simp del]

section \<open>Preconditions and observations\<close>

text \<open>
  The documentation of \<open>HashLen\<close>: ``The required hash length, in bytes, should be
  >= 4, in increments of 4''.
\<close>

definition valid_HashLen :: "int \<Rightarrow> bool" where
  "valid_HashLen HashLen \<longleftrightarrow> 4 \<le> HashLen \<and> HashLen mod 4 = 0"

text \<open>
  No overflow in lines 101 and 102: the iteration length, computed exactly, is at most
  \<open>INT_MAX\<close>. For \<open>MsgLen \<ge> 0\<close> and a valid \<open>HashLen\<close> every summand is positive or
  zero, so \<open>MsgLen\<close>, \<open>HashLen\<close>, \<open>hlm\<close> and every intermediate result are at most
  \<open>INT_MAX\<close> as well.
\<close>

definition lengths_fit :: "int \<Rightarrow> int \<Rightarrow> bool" where
  "lengths_fit MsgLen HashLen \<longleftrightarrow>
     (let m = MsgLen + ((4 - (MsgLen AND 3)) AND 3)
      in m + HashLen + (hlm HashLen - c_rem m (hlm HashLen)) \<le> 2147483647)"

text \<open>
  The cursor positions, in order, at which the passes with index \<open>k\<close> at or past
  \<open>mlext\<close> write their hash word: the passes that no longer read a byte of the
  message.
\<close>

definition post_message_slots ::
  "bool \<Rightarrow> u8 list \<Rightarrow> int \<Rightarrow> u8 list \<Rightarrow> int \<Rightarrow> u64 \<Rightarrow> u8 list option \<Rightarrow> int list" where
  "post_message_slots be Msg MsgLen Hash0 HashLen SeedXOR InitVec =
     map hpos (filter (\<lambda>s. mlext MsgLen \<le> k s)
       (loop_trace be Msg MsgLen (lb Msg MsgLen) (hlm HashLen) (c MsgLen HashLen)
          (init_state be Hash0 HashLen SeedXOR InitVec)))"

text \<open>Byte \<open>i\<close> of a 64-bit value, byte 0 being the least significant.\<close>

definition byte_of :: "u64 \<Rightarrow> nat \<Rightarrow> u8" where
  "byte_of w i = ucast (drop_bit (8 * i) w)"

section \<open>Bytes and words\<close>

lemma length_store_u32 [simp]: "length (store_u32 be H i w) = length H"
  by (simp add: store_u32_def)

lemma store_u32_other: "j < i \<or> i + 4 \<le> j \<Longrightarrow> store_u32 be H i w ! j = H ! j"
  by (auto simp: store_u32_def)

lemma bytes_le_u32:
  "ucast (ucast w :: u8) OR push_bit 8 (ucast (ucast (drop_bit 8 w) :: u8)) OR
   push_bit 16 (ucast (ucast (drop_bit 16 w) :: u8)) OR
   push_bit 24 (ucast (ucast (drop_bit 24 w) :: u8)) = (w :: u32)"
proof (rule bit_word_eqI)
  fix n :: nat
  assume "n < LENGTH(32)"
  then consider "n < 8" | "8 \<le> n" "n < 16" | "16 \<le> n" "n < 24" | "24 \<le> n" "n < 32"
    by fastforce
  then show "bit ((ucast (ucast w :: u8) OR push_bit 8 (ucast (ucast (drop_bit 8 w) :: u8)) OR
   push_bit 16 (ucast (ucast (drop_bit 16 w) :: u8)) OR
   push_bit 24 (ucast (ucast (drop_bit 24 w) :: u8))) :: u32) n = bit w n"
    by cases (auto simp: bit_simps)
qed

lemma load_store_same:
  "i + 4 \<le> length H \<Longrightarrow> load_u32 be (store_u32 be H i w) i = w"
  using bytes_le_u32 [of w]
  by (auto simp: load_u32_def store_u32_def ac_simps)


lemma byte_of_le32_0:
  "byte_of (ucast ((ucast b0 OR push_bit 8 (ucast (b1 :: u8)) OR push_bit 16 (ucast (b2 :: u8)) OR
     push_bit 24 (ucast (b3 :: u8))) :: u32)) 0 = (b0 :: u8)"
  unfolding byte_of_def by (rule bit_word_eqI) (auto simp: bit_simps dest: bit_imp_le_length)

lemma byte_of_le32_1:
  "byte_of (ucast ((ucast (b0 :: u8) OR push_bit 8 (ucast b1) OR push_bit 16 (ucast (b2 :: u8)) OR
     push_bit 24 (ucast (b3 :: u8))) :: u32)) 1 = (b1 :: u8)"
  unfolding byte_of_def by (rule bit_word_eqI) (auto simp: bit_simps dest: bit_imp_le_length)

lemma byte_of_le32_2:
  "byte_of (ucast ((ucast (b0 :: u8) OR push_bit 8 (ucast (b1 :: u8)) OR push_bit 16 (ucast b2) OR
     push_bit 24 (ucast (b3 :: u8))) :: u32)) 2 = (b2 :: u8)"
  unfolding byte_of_def by (rule bit_word_eqI) (auto simp: bit_simps dest: bit_imp_le_length)

lemma byte_of_le32_3:
  "byte_of (ucast ((ucast (b0 :: u8) OR push_bit 8 (ucast (b1 :: u8)) OR push_bit 16 (ucast (b2 :: u8)) OR
     push_bit 24 (ucast b3)) :: u32)) 3 = (b3 :: u8)"
  unfolding byte_of_def by (rule bit_word_eqI) (auto simp: bit_simps dest: bit_imp_le_length)

lemma high_ucast32: "drop_bit 32 (ucast (w :: u32) :: u64) = 0"
  by (rule bit_word_eqI) (auto simp: bit_simps dest: bit_imp_le_length)

lemma lb_eq: "lb Msg MsgLen = (if MsgLen > 0 then NOT (Msg ! nat (MsgLen - 1)) else 0xFF)"
  unfolding lb_def by (auto intro!: bit_word_eqI simp: bit_simps)

lemma not_neq_u8: "NOT (b :: u8) \<noteq> b"
proof
  assume "NOT b = b"
  then have "bit (NOT b) 0 = bit b 0" by simp
  then show False by (simp add: bit_simps)
qed

section \<open>The mixing step\<close>

text \<open>
  Claim C1. One pass through lines 122 to 129, with every operation on 64-bit words
  (so wrapping modulo \<open>2 ^ 64\<close>): with \<open>seed1\<close> the complement of \<open>Seed * lcg\<close>,
  \<open>hl\<close> the high half of the old \<open>lcg\<close> XORed with the message word and \<open>ph\<close> the
  hash word at \<open>hpos\<close> XORed with the high half of \<open>seed1\<close>, the step leaves
  \<open>lcg + seed1\<close> in \<open>lcg\<close>, \<open>seed1 XOR ph XOR hl\<close> in \<open>Seed\<close> and the low 32 bits
  of \<open>ph\<close> in the hash word at \<open>hpos\<close>; no other byte of the buffer changes, and the
  cursor and the index stay where they are. The cursor is assumed to address a whole
  word of the buffer.
\<close>

theorem mix_step:
  "0 \<le> hpos st \<Longrightarrow> nat (hpos st) + 4 \<le> length (Hash st) \<Longrightarrow>
   (let seed1 = NOT (Seed st * lcg st);
        hl = drop_bit 32 (lcg st) XOR mw;
        hc = load_u32 be (Hash st) (nat (hpos st));
        ph = ucast hc XOR drop_bit 32 seed1;
        st' = mix be mw st
    in lcg st' = lcg st + seed1 \<and>
       Seed st' = seed1 XOR ph XOR hl \<and>
       load_u32 be (Hash st') (nat (hpos st)) = ucast ph \<and>
       length (Hash st') = length (Hash st) \<and>
       (\<forall>j. j < nat (hpos st) \<or> nat (hpos st) + 4 \<le> j \<longrightarrow> Hash st' ! j = Hash st ! j) \<and>
       hpos st' = hpos st \<and> k st' = k st)"
  by (simp add: mix_def Let_def load_store_same store_u32_other ac_simps)

theorem mix_step_witness:
  "(let st = \<lparr>Seed = 3, lcg = 5, Hash = [1, 0, 0, 0], hpos = 0, k = 0\<rparr>;
        st' = mix False 7 st
    in 0 \<le> hpos st \<and> nat (hpos st) + 4 \<le> length (Hash st) \<and>
       lcg st' = 5 + NOT 15 \<and> Seed st' = NOT 15 XOR (1 XOR drop_bit 32 (NOT 15)) XOR 7 \<and>
       load_u32 False (Hash st') 0 = ucast (1 XOR drop_bit 32 (NOT 15 :: u64)))"
  using mix_step [where st = "\<lparr>Seed = 3, lcg = 5, Hash = [1, 0, 0, 0], hpos = 0, k = 0\<rparr>"
      and be = False and mw = 7]
  by (simp add: Let_def load_u32_def)

section \<open>The filler byte\<close>

text \<open>
  Claim C10. For a non-empty message the filler byte \<open>lb\<close> is the bitwise complement
  of the last message byte, and so never equal to that byte.
\<close>

theorem lb_differs:
  "0 < MsgLen \<Longrightarrow>
   lb Msg MsgLen = NOT (Msg ! nat (MsgLen - 1)) \<and> lb Msg MsgLen \<noteq> Msg ! nat (MsgLen - 1)"
  by (simp add: lb_eq not_neq_u8)

theorem lb_differs_witness:
  "(0::int) < 3 \<and> lb [0x61, 0x62, 0x63] 3 = NOT 0x63 \<and> lb [0x61, 0x62, 0x63] 3 \<noteq> 0x63"
  using lb_differs [of 3 "[0x61, 0x62, 0x63]"] by simp

section \<open>The state in which the loop is entered\<close>

text \<open>
  Claim C7. With a null \<open>InitVec\<close> the loop is entered with \<open>lcg\<close> equal to the
  constant 15252113002925621231, which is not zero, and with \<open>Seed\<close> equal to
  17412655673657598932 XOR \<open>SeedXOR\<close>; so \<open>Seed\<close> and \<open>lcg\<close> are not both zero,
  whatever \<open>SeedXOR\<close> is.
\<close>

theorem default_seed_nonzero:
  "lcg (init_state be Hash0 HashLen SeedXOR None) = 15252113002925621231 \<and>
   Seed (init_state be Hash0 HashLen SeedXOR None) = 17412655673657598932 XOR SeedXOR \<and>
   lcg (init_state be Hash0 HashLen SeedXOR None) \<noteq> 0 \<and>
   \<not> (Seed (init_state be Hash0 HashLen SeedXOR None) = 0 \<and>
      lcg (init_state be Hash0 HashLen SeedXOR None) = 0)"
  by (simp add: init_state_def)

section \<open>Arithmetic of the lengths\<close>

lemma and3_mod4: "(x :: int) AND 3 = x mod 4"
  using take_bit_eq_mask [of 2 x] by (simp add: take_bit_eq_mod mask_eq_exp_minus_1)

lemma wrap_int_id: "- 2147483648 \<le> x \<Longrightarrow> x \<le> 2147483647 \<Longrightarrow> wrap_int x = x"
  by (simp add: wrap_int_def)

lemma wrap_int_mod4: "wrap_int x mod 4 = x mod 4"
proof -
  have a: "(y - 2147483648) mod 4 = y mod 4" for y :: int
  proof -
    have "(y - 2147483648) mod 4 = (y + 4 * (- 536870912)) mod 4" by simp
    also have "\<dots> = y mod 4" by (rule mod_mult_self2)
    finally show ?thesis .
  qed
  have b: "(y + 2147483648) mod 4 = y mod 4" for y :: int
  proof -
    have "(y + 2147483648) mod 4 = (y + 4 * 536870912) mod 4" by simp
    also have "\<dots> = y mod 4" by (rule mod_mult_self2)
    finally show ?thesis .
  qed
  have "(4::int) dvd 4294967296" by simp
  then have "((x + 2147483648) mod 4294967296) mod 4 = (x + 2147483648) mod 4"
    by (rule mod_mod_cancel)
  then show ?thesis unfolding wrap_int_def a b .
qed

lemma mlext_eq: "mlext MsgLen = wrap_int (MsgLen + (4 - MsgLen mod 4) mod 4)"
  by (simp add: mlext_def and3_mod4)

lemma mlext_mod4: "mlext MsgLen mod 4 = 0"
  unfolding mlext_eq wrap_int_mod4 by presburger

lemma lengths_fit_eq:
  "lengths_fit MsgLen HashLen \<longleftrightarrow>
     MsgLen + (4 - MsgLen mod 4) mod 4 + HashLen +
       (hlm HashLen - c_rem (MsgLen + (4 - MsgLen mod 4) mod 4) (hlm HashLen)) \<le> 2147483647"
  by (simp add: lengths_fit_def and3_mod4 Let_def)

lemma c_rem_nonneg: "0 \<le> a \<Longrightarrow> 0 < b \<Longrightarrow> c_rem a b = a mod b"
  by (cases "a = 0") (simp_all add: c_rem_def)

lemma hlm_valid:
  "valid_HashLen HashLen \<Longrightarrow> hlm HashLen = (if HashLen = 4 then 4 else 2 * HashLen)"
  by (simp add: hlm_def)

lemma hlm_pos: "valid_HashLen HashLen \<Longrightarrow> 0 < hlm HashLen \<and> hlm HashLen mod 4 = 0 \<and> HashLen \<le> hlm HashLen"
  by (auto simp: hlm_def valid_HashLen_def)

text \<open>Where nothing overflows, the two lengths are the exact ones.\<close>

lemma lengths_exact:
  assumes "valid_HashLen HashLen" "0 \<le> MsgLen" "lengths_fit MsgLen HashLen"
  shows "mlext MsgLen = MsgLen + (4 - MsgLen mod 4) mod 4"
    and "c MsgLen HashLen =
      mlext MsgLen + HashLen + (hlm HashLen - mlext MsgLen mod hlm HashLen)"
    and "c MsgLen HashLen \<le> 2147483647"
proof -
  let ?m = "MsgLen + (4 - MsgLen mod 4) mod 4"
  let ?r = "?m mod hlm HashLen"
  have h: "0 < hlm HashLen" "4 \<le> HashLen"
    using hlm_pos [OF assms(1)] assms(1) by (simp_all add: valid_HashLen_def)
  have m0: "0 \<le> ?m" using assms(2) by simp
  have rem: "c_rem ?m (hlm HashLen) = ?r"
    using m0 h(1) by (rule c_rem_nonneg)
  have r: "0 \<le> ?r" "?r < hlm HashLen"
    using h(1) by simp_all
  have fit: "?m + HashLen + (hlm HashLen - ?r) \<le> 2147483647"
    using assms(3) unfolding lengths_fit_eq rem .
  have m: "mlext MsgLen = ?m"
    unfolding mlext_eq using m0 fit h(2) r by (intro wrap_int_id) simp_all
  show "mlext MsgLen = ?m" by (rule m)
  have a: "wrap_int (?m + HashLen) = ?m + HashLen"
    using m0 fit h(2) r by (intro wrap_int_id) simp_all
  have b: "wrap_int (hlm HashLen - ?r) = hlm HashLen - ?r"
    using m0 fit h r by (intro wrap_int_id) simp_all
  have d: "wrap_int (?m + HashLen + (hlm HashLen - ?r)) = ?m + HashLen + (hlm HashLen - ?r)"
    using m0 fit h r by (intro wrap_int_id) simp_all
  show e: "c MsgLen HashLen =
      mlext MsgLen + HashLen + (hlm HashLen - mlext MsgLen mod hlm HashLen)"
    unfolding c_def m rem a b d ..
  show "c MsgLen HashLen \<le> 2147483647"
    unfolding e m by (rule fit)
qed

lemma mlext_bounds:
  assumes "valid_HashLen HashLen" "0 \<le> MsgLen" "lengths_fit MsgLen HashLen"
  shows "MsgLen \<le> mlext MsgLen \<and> mlext MsgLen < MsgLen + 4"
  unfolding lengths_exact(1) [OF assms] by presburger

lemma c_eq:
  assumes "valid_HashLen HashLen" "0 \<le> MsgLen" "lengths_fit MsgLen HashLen"
  shows "c MsgLen HashLen = hlm HashLen * (mlext MsgLen div hlm HashLen + 1) + HashLen"
  unfolding lengths_exact(2) [OF assms]
  by (simp add: algebra_simps minus_mult_div_eq_mod [symmetric])

lemma c_mod4:
  assumes "valid_HashLen HashLen" "0 \<le> MsgLen" "lengths_fit MsgLen HashLen"
  shows "c MsgLen HashLen mod 4 = 0"
proof -
  have "4 dvd hlm HashLen" "4 dvd HashLen"
    using hlm_pos [OF assms(1)] assms(1) by (auto simp: valid_HashLen_def)
  then have "4 dvd c MsgLen HashLen"
    unfolding c_eq [OF assms] by simp
  then show ?thesis by presburger
qed

lemma c_gt:
  assumes "valid_HashLen HashLen" "0 \<le> MsgLen" "lengths_fit MsgLen HashLen"
  shows "mlext MsgLen + HashLen < c MsgLen HashLen"
proof -
  have "mlext MsgLen mod hlm HashLen < hlm HashLen"
    using hlm_pos [OF assms(1)] by simp
  then show ?thesis unfolding lengths_exact(2) [OF assms] by simp
qed

section \<open>The loop, pass by pass\<close>

lemma k_loop_body [simp]: "k (loop_body be Msg MsgLen lbv hlmv st) = k st + 4"
  by (simp add: loop_body_def advance_def mix_def Let_def)

lemma hpos_loop_body:
  "hpos (loop_body be Msg MsgLen lbv hlmv st) = (if hpos st + 4 = hlmv then 0 else hpos st + 4)"
  by (simp add: loop_body_def advance_def mix_def Let_def)

lemma length_Hash_loop_body [simp]:
  "length (Hash (loop_body be Msg MsgLen lbv hlmv st)) = length (Hash st)"
  by (simp add: loop_body_def advance_def mix_def Let_def)

lemma cursor_step:
  fixes kv hlmv :: int
  assumes "0 < hlmv" "hlmv mod 4 = 0" "kv mod 4 = 0"
  shows "(kv + 4) mod hlmv = (if kv mod hlmv + 4 = hlmv then 0 else kv mod hlmv + 4)"
proof -
  define r where "r = kv mod hlmv"
  have "4 dvd hlmv" using assms(2) by presburger
  then have "r mod 4 = kv mod 4" unfolding r_def by (rule mod_mod_cancel)
  then have r4: "r mod 4 = 0" using assms(3) by simp
  have rb: "0 \<le> r" "r < hlmv" using assms(1) by (simp_all add: r_def)
  have le: "r + 4 \<le> hlmv" using r4 rb assms(2) by presburger
  have "(kv + 4) mod hlmv = (r + 4) mod hlmv"
    unfolding r_def by (simp add: mod_add_left_eq)
  also have "\<dots> = (if r + 4 = hlmv then 0 else r + 4)"
    using le rb by simp
  finally show ?thesis by (simp add: r_def)
qed

lemma loop_trace_inv:
  "0 < hlmv \<Longrightarrow> hlmv mod 4 = 0 \<Longrightarrow>
    0 \<le> k st \<Longrightarrow> k st mod 4 = 0 \<Longrightarrow> hpos st = k st mod hlmv \<Longrightarrow>
    s \<in> set (loop_trace be Msg MsgLen lbv hlmv cv st) \<Longrightarrow>
    k st \<le> k s \<and> k s < cv \<and> k s mod 4 = 0 \<and> hpos s = k s mod hlmv"
proof (induction be Msg MsgLen lbv hlmv cv st rule: loop_trace.induct)
  case (1 be Msg MsgLen lbv hlmv cv st)
  show ?case
  proof (cases "k st < cv")
    case False
    with "1.prems"(6) show ?thesis by (simp add: loop_trace.simps)
  next
    case True
    let ?st' = "loop_body be Msg MsgLen lbv hlmv st"
    from True "1.prems"(6) consider "s = st" | "s \<in> set (loop_trace be Msg MsgLen lbv hlmv cv ?st')"
      by (subst (asm) loop_trace.simps) (auto split: if_splits)
    then show ?thesis
    proof cases
      case 1
      with True "1.prems" show ?thesis by simp
    next
      case 2
      have a: "0 \<le> k ?st'"
        using "1.prems"(3) by simp
      have b: "k ?st' mod 4 = 0"
        using "1.prems"(4) by simp
      have h: "hpos ?st' = k ?st' mod hlmv"
        by (simp add: hpos_loop_body "1.prems"(5) cursor_step [OF "1.prems"(1,2,4)])
      from "1.IH" [OF True "1.prems"(1,2) a b h 2] show ?thesis by simp
    qed
  qed
qed


lemma loop_trace_hits:
  "k st \<le> j \<Longrightarrow> j < cv \<Longrightarrow> (j - k st) mod 4 = 0 \<Longrightarrow>
   \<exists>s \<in> set (loop_trace be Msg MsgLen lbv hlmv cv st). k s = j"
proof (induction be Msg MsgLen lbv hlmv cv st rule: loop_trace.induct)
  case (1 be Msg MsgLen lbv hlmv cv st)
  let ?st' = "loop_body be Msg MsgLen lbv hlmv st"
  from "1.prems" have lt: "k st < cv" by simp
  show ?case
  proof (cases "j = k st")
    case True
    with lt show ?thesis by (subst loop_trace.simps) simp
  next
    case False
    from False "1.prems" have a: "k ?st' \<le> j"
      unfolding k_loop_body by presburger
    from "1.prems" have b: "(j - k ?st') mod 4 = 0"
      unfolding k_loop_body by presburger
    from "1.IH" [OF lt a "1.prems"(2) b] lt
    show ?thesis by (subst loop_trace.simps) simp
  qed
qed



text \<open>
  The trace is the loop's own: the loop returns what the body makes of the last state
  of the trace, or the entry state when no pass is made.
\<close>

lemma main_loop_last:
  "main_loop be Msg MsgLen lbv hlmv cv st =
   (case loop_trace be Msg MsgLen lbv hlmv cv st of
      [] \<Rightarrow> st
    | s # ss \<Rightarrow> loop_body be Msg MsgLen lbv hlmv (last (s # ss)))"
proof (induction be Msg MsgLen lbv hlmv cv st rule: main_loop.induct)
  case (1 be Msg MsgLen lbv hlmv cv st)
  show ?case
  proof (cases "k st < cv")
    case False
    then show ?thesis by (subst main_loop.simps, subst loop_trace.simps) simp
  next
    case True
    let ?st' = "loop_body be Msg MsgLen lbv hlmv st"
    have m: "main_loop be Msg MsgLen lbv hlmv cv st = main_loop be Msg MsgLen lbv hlmv cv ?st'"
      using True by (subst main_loop.simps) simp
    have t: "loop_trace be Msg MsgLen lbv hlmv cv st = st # loop_trace be Msg MsgLen lbv hlmv cv ?st'"
      using True by (subst loop_trace.simps) simp
    show ?thesis
      unfolding m t "1.IH" [OF True]
      by (simp split: list.splits)
  qed
qed


lemma init_state_cursor [simp]:
  "hpos (init_state be Hash0 HashLen SeedXOR InitVec) = 0"
  "k (init_state be Hash0 HashLen SeedXOR InitVec) = 0"
  by (simp_all add: init_state_def split: option.splits)

section \<open>The cursor\<close>



section \<open>The number of passes\<close>




section \<open>The passes after the message\<close>

text \<open>
  Claim C2, as the code has it. For a valid \<open>HashLen\<close> and \<open>MsgLen \<ge> 0\<close> whose iteration
  length fits an \<open>int\<close> (no overflow in lines 101 and 102), that length
  is \<open>c = hlm * (mlext div hlm + 1) + HashLen\<close>: the loop runs to the first
  multiple of \<open>hlm\<close> strictly beyond \<open>mlext\<close> and \<open>HashLen\<close> bytes further. Every
  4-byte slot of the first \<open>HashLen\<close> bytes of the hash buffer (the output half, which is
  the whole buffer when \<open>HashLen = 4\<close>) is written by a pass whose index is at or
  past \<open>mlext\<close>.
\<close>

theorem output_slots_rewritten:
  assumes "valid_HashLen HashLen" and "0 \<le> MsgLen" and "lengths_fit MsgLen HashLen"
  shows "c MsgLen HashLen = hlm HashLen * (mlext MsgLen div hlm HashLen + 1) + HashLen \<and>
    (\<forall>p. 0 \<le> p \<and> p < HashLen \<and> p mod 4 = 0 \<longrightarrow>
       p \<in> set (post_message_slots be Msg MsgLen Hash0 HashLen SeedXOR InitVec))"
proof (intro conjI allI impI)
  let ?st0 = "init_state be Hash0 HashLen SeedXOR InitVec"
  let ?tr = "loop_trace be Msg MsgLen (lb Msg MsgLen) (hlm HashLen) (c MsgLen HashLen) ?st0"
  show ceq: "c MsgLen HashLen = hlm HashLen * (mlext MsgLen div hlm HashLen + 1) + HashLen"
    by (rule c_eq [OF assms])
  fix p
  assume p: "0 \<le> p \<and> p < HashLen \<and> p mod 4 = 0"
  have h: "0 < hlm HashLen" "hlm HashLen mod 4 = 0" "HashLen \<le> hlm HashLen"
    using hlm_pos [OF assms(1)] by simp_all
  have ml: "0 \<le> mlext MsgLen" using mlext_bounds [OF assms] assms(2) by simp
  define j where "j = c MsgLen HashLen - HashLen + p"
  have j_eq: "j = hlm HashLen * (mlext MsgLen div hlm HashLen + 1) + p"
    unfolding j_def ceq by simp
  have j_lt: "j < c MsgLen HashLen" using p by (simp add: j_def)
  have j_ge: "mlext MsgLen \<le> j"
    using c_gt [OF assms] p by (simp add: j_def)
  have j4: "j mod 4 = 0"
    using c_mod4 [OF assms] assms(1) p unfolding j_def valid_HashLen_def by presburger
  have j_hpos: "j mod hlm HashLen = p"
    unfolding j_eq using p h by simp
  from loop_trace_hits [of ?st0 j "c MsgLen HashLen" be Msg MsgLen "lb Msg MsgLen" "hlm HashLen"]
  obtain s where s: "s \<in> set ?tr" "k s = j"
    using ml j_ge j_lt j4 by auto
  have "hpos s = k s mod hlm HashLen"
    using loop_trace_inv [OF h(1,2) _ _ _ s(1)] by simp
  with s(2) j_hpos have "hpos s = p" by simp
  with s j_ge show "p \<in> set (post_message_slots be Msg MsgLen Hash0 HashLen SeedXOR InitVec)"
    unfolding post_message_slots_def by force
qed

theorem output_slots_rewritten_witness:
  "valid_HashLen 8 \<and> (0::int) \<le> 12 \<and> lengths_fit 12 8 \<and> c 12 8 = 24 \<and>
   0 \<in> set (post_message_slots False (replicate 12 0x61) 12 (replicate 16 0) 8 0 None) \<and>
   4 \<in> set (post_message_slots False (replicate 12 0x61) 12 (replicate 16 0) 8 0 None)"
proof -
  have v: "valid_HashLen 8" by (simp add: valid_HashLen_def)
  have m: "(0::int) \<le> 12" by simp
  have f: "lengths_fit 12 8" by (simp add: lengths_fit_eq hlm_def c_rem_def)
  have cv: "c 12 8 = 24" by (simp add: c_def mlext_eq hlm_def c_rem_def wrap_int_def)
  note t = output_slots_rewritten [OF v m f, of False "replicate 12 0x61" "replicate 16 0" 0 None,
      THEN conjunct2, rule_format]
  have p0: "0 \<in> set (post_message_slots False (replicate 12 0x61) 12 (replicate 16 0) 8 0 None)"
    by (rule t) simp
  have p4: "4 \<in> set (post_message_slots False (replicate 12 0x61) 12 (replicate 16 0) 8 0 None)"
    by (rule t) simp
  from v m f cv p0 p4 show ?thesis by blast
qed

text \<open>
  The claim as the spec words it, every slot of the whole buffer of \<open>hlm\<close> bytes being
  written by a pass at or past \<open>mlext\<close>, does not hold: for \<open>HashLen = 8\<close> and a
  message of 12 bytes the buffer has 16 bytes, the loop makes 6 passes, the three
  passes at or past \<open>mlext = 12\<close> write the slots 12, 0 and 4, and the slot 8 of
  the scratch half is written by the pass \<open>k = 8\<close> only, which reads the last four
  bytes of the message.
\<close>

theorem scratch_slot_not_rewritten:
  "hlm 8 = 16 \<and> mlext 12 = 12 \<and> c 12 8 = 24 \<and>
   post_message_slots False (replicate 12 0x61) 12 (replicate 16 0) 8 0 None = [12, 0, 4] \<and>
   8 \<notin> set (post_message_slots False (replicate 12 0x61) 12 (replicate 16 0) 8 0 None)"
proof (intro conjI notI)
  show h: "hlm 8 = 16" by (simp add: hlm_def)
  show m: "mlext 12 = 12" by (simp add: mlext_eq wrap_int_def)
  show cv: "c 12 8 = 24" by (simp add: c_def m h c_rem_def wrap_int_def)
  show "post_message_slots False (replicate 12 0x61) 12 (replicate 16 0) 8 0 None = [12, 0, 4]"
    by (simp add: post_message_slots_def loop_trace.simps hpos_loop_body h m cv)
  assume "8 \<in> set (post_message_slots False (replicate 12 0x61) 12 (replicate 16 0) 8 0 None)"
  then obtain s where s: "s \<in> set (loop_trace False (replicate 12 0x61) 12 (lb (replicate 12 0x61) 12)
      16 24 (init_state False (replicate 16 0) 8 0 None))" "12 \<le> k s" "hpos s = 8"
    unfolding post_message_slots_def h m cv by auto
  from loop_trace_inv [OF _ _ _ _ _ s(1)]
  have "k s < 24" "k s mod 4 = 0" "hpos s = k s mod 16" by simp_all
  with s(2,3) show False by presburger
qed

text \<open>
  The bound on the lengths is needed as well: for a message of
  2147483644 bytes and \<open>HashLen = 4\<close> the \<open>int\<close> \<open>c\<close> is negative, no pass is
  made, and no slot is written at all.
\<close>

lemma post_message_slots_overflow:
  "post_message_slots False (replicate 2147483644 0x61) 2147483644 [0, 0, 0, 0] 4 0 None = []"
proof -
  have m: "mlext 2147483644 = 2147483644" by (simp add: mlext_eq wrap_int_def)
  have cv: "c 2147483644 4 = - 2147483644"
    by (simp add: c_def m hlm_def c_rem_def wrap_int_def)
  show ?thesis
    unfolding post_message_slots_def cv by (subst loop_trace.simps) simp
qed

section \<open>The message word\<close>

lemma byte_of_u32ec:
  "i < 4 \<Longrightarrow> byte_of (ucast (prvhash42_u32ec p n)) i = p ! (n + i)"
proof -
  assume "i < 4"
  then consider "i = 0" | "i = 1" | "i = 2" | "i = 3" by linarith
  then show ?thesis
  proof cases
    case 1
    show ?thesis unfolding prvhash42_u32ec_def 1 add_0_right by (rule byte_of_le32_0)
  next
    case 2
    show ?thesis unfolding prvhash42_u32ec_def 2 by (rule byte_of_le32_1)
  next
    case 3
    show ?thesis unfolding prvhash42_u32ec_def 3 by (rule byte_of_le32_2)
  next
    case 4
    show ?thesis unfolding prvhash42_u32ec_def 4 by (rule byte_of_le32_3)
  qed
qed

text \<open>
  Claim C3. In the pass with index \<open>k \<ge> 0\<close> of a message of \<open>MsgLen \<ge> 0\<close> bytes: if
  \<open>k \<le> MsgLen - 4\<close> the message word is the word \<open>prvhash42_u32ec\<close> reads at offset
  \<open>k\<close>, whose byte \<open>i\<close> is the message byte \<open>k + i\<close> (little-endian); otherwise its
  bytes 0, 1 and 2 are the message bytes \<open>k + i\<close> where \<open>k + i < MsgLen\<close> and the
  filler byte \<open>lb\<close> elsewhere, and its byte 3, the most significant, is \<open>lb\<close>. The
  word has 32 bits, and \<open>lb\<close> is the complement of the last message byte, or
  \<open>0xFF\<close> when \<open>MsgLen = 0\<close>.
\<close>

theorem message_word:
  "0 \<le> MsgLen \<Longrightarrow> 0 \<le> kv \<Longrightarrow>
   (let lbv = lb Msg MsgLen; w = msgw Msg MsgLen lbv kv
    in lbv = (if MsgLen = 0 then 0xFF else NOT (Msg ! nat (MsgLen - 1))) \<and>
       drop_bit 32 w = 0 \<and>
       (kv \<le> MsgLen - 4 \<longrightarrow>
          w = ucast (prvhash42_u32ec Msg (nat kv)) \<and>
          (\<forall>i<4. byte_of w i = Msg ! (nat kv + i))) \<and>
       (\<not> kv \<le> MsgLen - 4 \<longrightarrow>
          (\<forall>i<3. byte_of w i = (if kv + int i < MsgLen then Msg ! (nat kv + i) else lbv)) \<and>
          byte_of w 3 = lbv))"
proof -
  assume M: "0 \<le> MsgLen" and K: "0 \<le> kv"
  let ?lbv = "lb Msg MsgLen"
  let ?w = "msgw Msg MsgLen ?lbv kv"
  have 1: "?lbv = (if MsgLen = 0 then 0xFF else NOT (Msg ! nat (MsgLen - 1)))"
    using M by (simp add: lb_eq)
  have 2: "drop_bit 32 ?w = 0"
    by (simp add: msgw_def high_ucast32)
  have 3: "?w = ucast (prvhash42_u32ec Msg (nat kv)) \<and> (\<forall>i<4. byte_of ?w i = Msg ! (nat kv + i))"
    if "kv \<le> MsgLen - 4"
    using that by (simp add: msgw_def byte_of_u32ec)
  have 4: "(\<forall>i<3. byte_of ?w i = (if kv + int i < MsgLen then Msg ! (nat kv + i) else ?lbv)) \<and>
      byte_of ?w 3 = ?lbv"
    if n: "\<not> kv \<le> MsgLen - 4"
  proof (intro conjI allI impI)
    from n have w: "?w = ucast
        ((ucast (if kv < MsgLen then Msg ! nat kv else ?lbv) :: u32) OR
         push_bit 8 (ucast (if kv < MsgLen - 1 then Msg ! nat (kv + 1) else ?lbv) :: u32) OR
         push_bit 16 (ucast (if kv < MsgLen - 2 then Msg ! nat (kv + 2) else ?lbv) :: u32) OR
         push_bit 24 (ucast ?lbv :: u32))"
      by (simp add: msgw_def)
    show "byte_of ?w 3 = ?lbv"
      unfolding w by (rule byte_of_le32_3)
    fix i :: nat
    assume "i < 3"
    then consider "i = 0" | "i = 1" | "i = 2" by linarith
    then show "byte_of ?w i = (if kv + int i < MsgLen then Msg ! (nat kv + i) else ?lbv)"
    proof cases
      case 1
      have "byte_of ?w 0 = (if kv < MsgLen then Msg ! nat kv else ?lbv)"
        unfolding w by (rule byte_of_le32_0)
      with 1 show ?thesis by simp
    next
      case 2
      have "byte_of ?w 1 = (if kv < MsgLen - 1 then Msg ! nat (kv + 1) else ?lbv)"
        unfolding w by (rule byte_of_le32_1)
      moreover have "nat (kv + 1) = nat kv + 1" using K by simp
      ultimately show ?thesis using 2 by (simp add: less_diff_eq)
    next
      case 3
      have "byte_of ?w 2 = (if kv < MsgLen - 2 then Msg ! nat (kv + 2) else ?lbv)"
        unfolding w by (rule byte_of_le32_2)
      moreover have "nat (kv + 2) = nat kv + 2" using K by simp
      ultimately show ?thesis using 3 by (simp add: less_diff_eq)
    qed
  qed
  from 1 2 3 4 show ?thesis unfolding Let_def by blast
qed

theorem message_word_witness:
  "(0::int) \<le> 3 \<and> (0::int) \<le> 0 \<and> \<not> (0::int) \<le> 3 - 4 \<and>
   lb [0x61, 0x62, 0x63] 3 = 0x9C \<and>
   byte_of (msgw [0x61, 0x62, 0x63] 3 (lb [0x61, 0x62, 0x63] 3) 0) 0 = 0x61 \<and>
   byte_of (msgw [0x61, 0x62, 0x63] 3 (lb [0x61, 0x62, 0x63] 3) 0) 1 = 0x62 \<and>
   byte_of (msgw [0x61, 0x62, 0x63] 3 (lb [0x61, 0x62, 0x63] 3) 0) 2 = 0x63 \<and>
   byte_of (msgw [0x61, 0x62, 0x63] 3 (lb [0x61, 0x62, 0x63] 3) 0) 3 = 0x9C \<and>
   msgw [0x61, 0x62, 0x63] 3 (lb [0x61, 0x62, 0x63] 3) 0 = 0x9C636261"
proof -
  let ?M = "[0x61, 0x62, 0x63] :: u8 list"
  let ?W = "msgw ?M 3 (lb ?M 3) 0"
  have l: "lb ?M 3 = 0x9C" by (simp add: lb_eq)
  have w: "?W = 0x9C636261" by (simp add: msgw_def lb_eq)
  have n: "\<not> (0::int) \<le> 3 - 4" by simp
  have m: "(0::int) \<le> 3" and k0: "(0::int) \<le> 0" by simp_all
  from message_word [OF m k0, of ?M] n
  have t: "\<forall>i<3. byte_of ?W i = (if 0 + int i < 3 then ?M ! (nat 0 + i) else lb ?M 3)"
    and b3: "byte_of ?W 3 = lb ?M 3"
    unfolding Let_def by blast+
  have b0: "byte_of ?W 0 = 0x61" using t [rule_format, of 0] by simp
  have b1: "byte_of ?W 1 = 0x62" using t [rule_format, of 1] by simp
  have b2: "byte_of ?W 2 = 0x63" using t [rule_format, of 2] by simp
  from m k0 n l w b0 b1 b2 b3 show ?thesis by simp
qed

section \<open>Endianness correction of the buffer\<close>

lemma length_swap_words [simp]: "length (swap_words xs) = length xs"
  by (induction xs rule: swap_words.induct) simp_all


lemma length_prvhash42_ec [simp]: "length (prvhash42_ec be H n) = length H"
  by (cases be) (simp_all add: prvhash42_ec_def min_def)




section \<open>Entry with an initialization vector\<close>



section \<open>The finalization\<close>


lemma length_fold_loop [simp]: "length (fold_loop be HashLen kv H) = length H"
proof (induction be HashLen kv H rule: fold_loop.induct)
  case (1 be HashLen kv H)
  show ?case
  proof (cases "kv < HashLen")
    case True
    from "1.IH" [OF True] True show ?thesis by (subst fold_loop.simps) simp
  next
    case False
    then show ?thesis by (subst fold_loop.simps) simp
  qed
qed





section \<open>The accesses stay inside the buffer\<close>

text \<open>
  For a valid \<open>HashLen\<close> and a buffer of at least \<open>hlm\<close> bytes, every pass of the
  loop begins with the cursor on a whole word of the buffer: the assumption under
  which the mixing step was described holds in every pass.
\<close>

lemma length_memset0 [simp]: "length (memset0 H n) = length H"
  by (simp add: memset0_def min_def)

lemma length_Hash_init_state [simp]:
  "length (Hash (init_state be Hash0 HashLen SeedXOR InitVec)) = length Hash0"
  by (simp add: init_state_def split: option.splits)

lemma loop_trace_length_Hash:
  "s \<in> set (loop_trace be Msg MsgLen lbv hlmv cv st) \<Longrightarrow> length (Hash s) = length (Hash st)"
proof (induction be Msg MsgLen lbv hlmv cv st rule: loop_trace.induct)
  case (1 be Msg MsgLen lbv hlmv cv st)
  from "1.prems" have lt: "k st < cv"
    by (subst (asm) loop_trace.simps) (simp split: if_splits)
  with "1.prems" consider "s = st"
    | "s \<in> set (loop_trace be Msg MsgLen lbv hlmv cv (loop_body be Msg MsgLen lbv hlmv st))"
    by (subst (asm) loop_trace.simps) auto
  then show ?case
  proof cases
    case 1
    then show ?thesis by simp
  next
    case 2
    from "1.IH" [OF lt 2] show ?thesis by simp
  qed
qed

lemma loop_trace_in_bounds:
  assumes "valid_HashLen HashLen" and "nat (hlm HashLen) \<le> length Hash0"
    and "s \<in> set (loop_trace be Msg MsgLen lbv (hlm HashLen) cv
      (init_state be Hash0 HashLen SeedXOR InitVec))"
  shows "0 \<le> hpos s \<and> nat (hpos s) + 4 \<le> length (Hash s)"
proof -
  have h: "0 < hlm HashLen" "hlm HashLen mod 4 = 0"
    using hlm_pos [OF assms(1)] by simp_all
  have inv: "k s mod 4 = 0" "hpos s = k s mod hlm HashLen"
    using loop_trace_inv [OF h _ _ _ assms(3)] by simp_all
  have "4 dvd hlm HashLen" using h(2) by presburger
  then have "hpos s mod 4 = k s mod 4" unfolding inv(2) by (rule mod_mod_cancel)
  with inv(1) have p4: "hpos s mod 4 = 0" by simp
  have lo: "0 \<le> hpos s" and hi: "hpos s < hlm HashLen"
    using inv(2) h(1) by simp_all
  from p4 hi h(2) have "hpos s + 4 \<le> hlm HashLen" by presburger
  with lo have "nat (hpos s) + 4 \<le> nat (hlm HashLen)" by simp
  also note assms(2)
  also have "length Hash0 = length (Hash s)"
    using loop_trace_length_Hash [OF assms(3)] by simp
  finally show ?thesis using lo by simp
qed

text \<open>
  Where the lengths fit an \<open>int\<close>, so do the index and the cursor after their
  increments in every pass, and so does \<open>hlm\<close>.
\<close>

lemma loop_trace_no_overflow:
  assumes "valid_HashLen HashLen" and "0 \<le> MsgLen" and "lengths_fit MsgLen HashLen"
    and "s \<in> set (loop_trace be Msg MsgLen lbv (hlm HashLen) (c MsgLen HashLen)
      (init_state be Hash0 HashLen SeedXOR InitVec))"
  shows "0 \<le> k s \<and> k s + 4 \<le> c MsgLen HashLen \<and> c MsgLen HashLen \<le> 2147483647 \<and>
    0 \<le> hpos s \<and> hpos s + 4 \<le> hlm HashLen \<and> hlm HashLen \<le> 2147483647"
proof -
  note fit = assms(1-3)
  have h: "0 < hlm HashLen" "hlm HashLen mod 4 = 0"
    using hlm_pos [OF assms(1)] by simp_all
  have inv: "0 \<le> k s" "k s < c MsgLen HashLen" "k s mod 4 = 0" "hpos s = k s mod hlm HashLen"
    using loop_trace_inv [OF h _ _ _ assms(4)] by simp_all
  from inv(2,3) c_mod4 [OF fit] have kk: "k s + 4 \<le> c MsgLen HashLen" by presburger
  have cm: "c MsgLen HashLen \<le> 2147483647" by (rule lengths_exact(3) [OF fit])
  have "4 dvd hlm HashLen" using h(2) by presburger
  then have "hpos s mod 4 = k s mod 4" unfolding inv(4) by (rule mod_mod_cancel)
  with inv(3) have p4: "hpos s mod 4 = 0" by simp
  have lo: "0 \<le> hpos s" and hi: "hpos s < hlm HashLen"
    using inv(4) h(1) by simp_all
  from p4 hi h(2) have hp: "hpos s + 4 \<le> hlm HashLen" by presburger
  have m0: "0 \<le> mlext MsgLen" using mlext_bounds [OF fit] assms(2) by simp
  then have "mlext MsgLen mod hlm HashLen \<le> mlext MsgLen"
    by (rule zmod_le_nonneg_dividend)
  with assms(1) have "hlm HashLen \<le> c MsgLen HashLen"
    unfolding lengths_exact(2) [OF fit] valid_HashLen_def by simp
  with cm have hm: "hlm HashLen \<le> 2147483647" by simp
  from inv(1) kk cm lo hp hm show ?thesis by simp
qed

section \<open>Two particular entries\<close>

text \<open>
  The documentation of \<open>InitVec\<close> leaves it to the caller that the vector is not
  zero (``it is imperative that the initialization vector is non-zero''): the function
  does not check it, and with sixteen zero bytes the loop is entered with \<open>Seed\<close> and
  \<open>lcg\<close> both zero.
\<close>

lemma initvec_zero_state:
  "Seed (init_state be Hash0 HashLen SeedXOR (Some (replicate 16 0))) = 0 \<and>
   lcg (init_state be Hash0 HashLen SeedXOR (Some (replicate 16 0))) = 0"
  by (simp add: init_state_def prvhash42_u64ec_def numeral_eq_Suc)

text \<open>
  The empty message with the default seed and \<open>HashLen = 4\<close>: two passes, and the
  digest is the same four bytes on either host and whatever the buffer held before.
\<close>

lemma empty_message_digest_4:
  "take 4 (prvhash42 be [] 0 [h0, h1, h2, h3] 4 0 None) = [0x7F, 0xCC, 0x22, 0x9D]"
  by (cases be)
    (simp_all add: prvhash42_def finalize_def main_loop.simps loop_body_def mix_def advance_def
      msgw_def lb_def init_state_def memset0_def hlm_def c_def c_rem_def mlext_def wrap_int_def
      load_u32_def store_u32_def prvhash42_ec_def Let_def)

end
